theory Spec2Isabelle
  imports Main
begin

section \<open>Values, exceptions and dictionaries\<close>

text \<open>
  The engine passes around untyped Python values (\<^verbatim>\<open>Any\<close>). A value is either
  Python's \<^verbatim>\<open>None\<close> or a payload of an arbitrary type \<open>'v\<close>.
\<close>

datatype 'v pyval = PyNone | Val 'v

text \<open>
  Whatever a call raises is either an instance of \<^verbatim>\<open>Exception\<close>, which the clause
  \<^verbatim>\<open>except Exception as e\<close> of \<^verbatim>\<open>Node._exec\<close> catches, or another
  \<^verbatim>\<open>BaseException\<close> (\<^verbatim>\<open>KeyboardInterrupt\<close>, \<^verbatim>\<open>SystemExit\<close>), which it lets through.
  A call returns \<open>Inr\<close> of its value or \<open>Inl\<close> of what it raised.
\<close>

datatype 'x raised = Exception 'x | BaseException 'x

type_synonym ('v, 'x) outcome = "'x raised + 'v pyval"

text \<open>
  A Python \<^verbatim>\<open>dict\<close> keeps its keys in insertion order; assigning to a key that is
  present replaces the value where the key stands, assigning to a new key appends.
\<close>

type_synonym ('k, 'a) dict = "('k \<times> 'a) list"

fun dict_set :: "'k \<Rightarrow> 'a \<Rightarrow> ('k, 'a) dict \<Rightarrow> ('k, 'a) dict" where
  "dict_set k v [] = [(k, v)]"
| "dict_set k v ((k', v') # d) =
     (if k' = k then (k', v) # d else (k', v') # dict_set k v d)"

definition dict_contains :: "'k \<Rightarrow> ('k, 'a) dict \<Rightarrow> bool" where
  "dict_contains k d = (map_of d k \<noteq> None)"

fun dict_update :: "('k, 'a) dict \<Rightarrow> ('k, 'a) dict \<Rightarrow> ('k, 'a) dict" where
  "dict_update d [] = d"
| "dict_update d ((k, v) # p) = dict_update (dict_set k v d) p"

type_synonym 'v shared = "(string, 'v pyval) dict"

section \<open>Steps: \<^verbatim>\<open>services/nodes.py\<close>\<close>

text \<open>
  A transition key (\<^verbatim>\<open>action\<close>) is a string label or, as \<^verbatim>\<open>Flow.run\<close> allows for with
  \<^verbatim>\<open>callable(action)\<close>, a callable applied to the step's result and read for its truth
  value. A callable is hashed by identity, so it carries the identity of the object
  besides its behaviour. Callables are taken to be pure and to return.
\<close>

datatype 'v action = Label string | Callable nat "'v pyval \<Rightarrow> bool"

text \<open>
  Every call the engine makes on a step is recorded as an event, with the results of
  earlier phases that it is given and with what came back, and so is every
  \<^verbatim>\<open>time.sleep\<close>, so that the number and the order of the calls can be read off a run.
\<close>

datatype ('v, 'x) event =
    Prep "('v, 'x) outcome"
  | Exec "'v pyval" "('v, 'x) outcome"
  | Sleep int
  | Fallback "'v pyval" 'x "('v, 'x) outcome"
  | Post "'v pyval" "'v pyval" "('v, 'x) outcome"

datatype node_class = BaseNode | Node

text \<open>
  A step object. Steps refer to each other by reference: a successor is the address of
  a step in the store. The phases \<^verbatim>\<open>prep\<close>, \<^verbatim>\<open>exec\<close>, \<^verbatim>\<open>exec_fallback\<close> and \<^verbatim>\<open>post\<close> are
  the methods a concrete step class overrides; they are arbitrary code, modelled as
  functions of their arguments and of a world \<open>'w\<close> that stands for everything else
  they read or write (files, network, attributes of their own). \<^verbatim>\<open>prep\<close> and \<^verbatim>\<open>post\<close>
  receive the shared dictionary and may mutate it in place, also when they raise.
  The phases do not assign the fields the engine itself manages (\<^verbatim>\<open>successors\<close>,
  \<^verbatim>\<open>max_retries\<close>, \<^verbatim>\<open>wait\<close>, \<^verbatim>\<open>cur_retry\<close>). The fields \<^verbatim>\<open>max_retries\<close>, \<^verbatim>\<open>wait\<close>,
  \<^verbatim>\<open>cur_retry\<close> and \<^verbatim>\<open>exec_fallback\<close> mean something for class \<^verbatim>\<open>Node\<close> only.
\<close>

record ('v, 'x, 'w) node =
  cls :: node_class
  params :: "'v shared"
  successors :: "('v action, nat) dict"
  max_retries :: int
  wait :: int
  cur_retry :: int
  prep :: "'v shared \<Rightarrow> 'w \<Rightarrow> ('v, 'x) outcome \<times> 'v shared \<times> 'w"
  exec :: "'v pyval \<Rightarrow> 'w \<Rightarrow> ('v, 'x) outcome \<times> 'w"
  exec_fallback :: "'v pyval \<Rightarrow> 'x \<Rightarrow> 'w \<Rightarrow> ('v, 'x) outcome \<times> 'w"
  post :: "'v shared \<Rightarrow> 'v pyval \<Rightarrow> 'v pyval \<Rightarrow> 'w \<Rightarrow> ('v, 'x) outcome \<times> 'v shared \<times> 'w"

text \<open>The methods of \<^verbatim>\<open>BaseNode\<close> and \<^verbatim>\<open>Node\<close> that do nothing unless overridden.\<close>

definition default_prep :: "'v shared \<Rightarrow> 'w \<Rightarrow> ('v, 'x) outcome \<times> 'v shared \<times> 'w" where
  "default_prep shared w = (Inr PyNone, shared, w)"

definition default_exec :: "'v pyval \<Rightarrow> 'w \<Rightarrow> ('v, 'x) outcome \<times> 'w" where
  "default_exec prep_res w = (Inr PyNone, w)"

definition default_post ::
  "'v shared \<Rightarrow> 'v pyval \<Rightarrow> 'v pyval \<Rightarrow> 'w \<Rightarrow> ('v, 'x) outcome \<times> 'v shared \<times> 'w" where
  "default_post shared prep_res exec_res w = (Inr PyNone, shared, w)"

text \<open>\<^verbatim>\<open>Node.exec_fallback\<close>: \<^verbatim>\<open>raise exc\<close>.\<close>

definition default_exec_fallback :: "'v pyval \<Rightarrow> 'x \<Rightarrow> 'w \<Rightarrow> ('v, 'x) outcome \<times> 'w" where
  "default_exec_fallback prep_res exc w = (Inl (Exception exc), w)"

text \<open>\<^verbatim>\<open>BaseNode.__init__\<close> and \<^verbatim>\<open>Node.__init__(max_retries=1, wait=0)\<close>.\<close>

definition BaseNode_init :: "('v, 'x, 'w) node" where
  "BaseNode_init =
     \<lparr>cls = BaseNode, params = [], successors = [], max_retries = 0, wait = 0,
      cur_retry = 0, prep = default_prep, exec = default_exec,
      exec_fallback = default_exec_fallback, post = default_post\<rparr>"

definition Node_init :: "int \<Rightarrow> int \<Rightarrow> ('v, 'x, 'w) node" where
  "Node_init n wt = BaseNode_init\<lparr>cls := Node, max_retries := n, wait := wt, cur_retry := 0\<rparr>"

subsection \<open>The retry loop \<^verbatim>\<open>Node._exec\<close>\<close>

text \<open>
  \<^verbatim>\<open>for self.cur_retry in range(self.max_retries)\<close>: the list of indices is fixed when
  the loop starts, each iteration first stores its index in \<^verbatim>\<open>cur_retry\<close>. The loop
  returns what \<^verbatim>\<open>_exec\<close> returns or raises, the last value of \<^verbatim>\<open>cur_retry\<close>, the world
  and the calls made. When the indices run out the method falls off its end and
  returns \<^verbatim>\<open>None\<close>. \<^verbatim>\<open>time.sleep\<close> is recorded and has no other effect on the world.
\<close>

fun retry_loop ::
  "('v, 'x, 'w) node \<Rightarrow> 'v pyval \<Rightarrow> int list \<Rightarrow> int \<Rightarrow> 'w \<Rightarrow>
   ('v, 'x) outcome \<times> int \<times> 'w \<times> ('v, 'x) event list" where
  "retry_loop nd prep_res [] cur w = (Inr PyNone, cur, w, [])"
| "retry_loop nd prep_res (i # rest) cur w =
     (case exec nd prep_res w of
        (Inr v, w1) \<Rightarrow> (Inr v, i, w1, [Exec prep_res (Inr v)])
      | (Inl (BaseException b), w1) \<Rightarrow>
          (Inl (BaseException b), i, w1, [Exec prep_res (Inl (BaseException b))])
      | (Inl (Exception e), w1) \<Rightarrow>
          if i = max_retries nd - 1 then
            (case exec_fallback nd prep_res e w1 of
               (r, w2) \<Rightarrow>
                 (r, i, w2, [Exec prep_res (Inl (Exception e)), Fallback prep_res e r]))
          else
            (case retry_loop nd prep_res rest i w1 of
               (r, c, w2, tr) \<Rightarrow>
                 (r, c, w2,
                  Exec prep_res (Inl (Exception e))
                    # (if wait nd > 0 then [Sleep (wait nd)] else []) @ tr)))"

definition Node__exec ::
  "('v, 'x, 'w) node \<Rightarrow> 'v pyval \<Rightarrow> 'w \<Rightarrow>
   ('v, 'x) outcome \<times> int \<times> 'w \<times> ('v, 'x) event list" where
  "Node__exec nd prep_res w =
     retry_loop nd prep_res (map int [0 ..< nat (max_retries nd)]) (cur_retry nd) w"

text \<open>\<^verbatim>\<open>BaseNode._exec\<close>: one call of \<^verbatim>\<open>exec\<close>, nothing caught.\<close>

definition BaseNode__exec ::
  "('v, 'x, 'w) node \<Rightarrow> 'v pyval \<Rightarrow> 'w \<Rightarrow>
   ('v, 'x) outcome \<times> int \<times> 'w \<times> ('v, 'x) event list" where
  "BaseNode__exec nd prep_res w =
     (case exec nd prep_res w of (r, w1) \<Rightarrow> (r, cur_retry nd, w1, [Exec prep_res r]))"

text \<open>The dynamic dispatch of \<^verbatim>\<open>self._exec\<close>.\<close>

definition dispatch_exec ::
  "('v, 'x, 'w) node \<Rightarrow> 'v pyval \<Rightarrow> 'w \<Rightarrow>
   ('v, 'x) outcome \<times> int \<times> 'w \<times> ('v, 'x) event list" where
  "dispatch_exec nd prep_res w =
     (case cls nd of BaseNode \<Rightarrow> BaseNode__exec nd prep_res w
                   | Node \<Rightarrow> Node__exec nd prep_res w)"

subsection \<open>Registering transitions: \<^verbatim>\<open>BaseNode.next\<close> and \<^verbatim>\<open>__rshift__\<close>\<close>

datatype 'v warning = OverwritingSuccessor "'v action" | WontRunSuccessors

text \<open>
  \<^verbatim>\<open>next\<close> mutates the step and returns the target; the model returns the target, the
  warnings passed to \<^verbatim>\<open>warnings.warn\<close> and the step as mutated.
\<close>

definition BaseNode_next ::
  "('v, 'x, 'w) node \<Rightarrow> nat \<Rightarrow> 'v action \<Rightarrow> nat \<times> 'v warning list \<times> ('v, 'x, 'w) node" where
  "BaseNode_next self node action =
     (node,
      (if dict_contains action (successors self) then [OverwritingSuccessor action] else []),
      self\<lparr>successors := dict_set action node (successors self)\<rparr>)"

definition BaseNode_rshift ::
  "('v, 'x, 'w) node \<Rightarrow> nat \<Rightarrow> nat \<times> 'v warning list \<times> ('v, 'x, 'w) node" where
  "BaseNode_rshift self other = BaseNode_next self other (Label ''default'')"

subsection \<open>The lifecycle of one step: \<^verbatim>\<open>BaseNode._run\<close> and \<^verbatim>\<open>BaseNode.run\<close>\<close>

text \<open>
  \<^verbatim>\<open>_run\<close>: \<^verbatim>\<open>p = self.prep(shared); e = self._exec(p); return self.post(shared, p, e)\<close>.
  An exception of a phase leaves the method at once. The result holds the step with
  its \<^verbatim>\<open>cur_retry\<close> as \<^verbatim>\<open>_exec\<close> left it, the shared dictionary, the world and the calls.
\<close>

definition BaseNode__run ::
  "('v, 'x, 'w) node \<Rightarrow> 'v shared \<Rightarrow> 'w \<Rightarrow>
   ('v, 'x) outcome \<times> ('v, 'x, 'w) node \<times> 'v shared \<times> 'w \<times> ('v, 'x) event list" where
  "BaseNode__run self shared w =
     (case prep self shared w of
        (Inl x, sh1, w1) \<Rightarrow> (Inl x, self, sh1, w1, [Prep (Inl x)])
      | (Inr p, sh1, w1) \<Rightarrow>
          (case dispatch_exec self p w1 of
             (Inl x, c, w2, tr) \<Rightarrow> (Inl x, self\<lparr>cur_retry := c\<rparr>, sh1, w2, Prep (Inr p) # tr)
           | (Inr e, c, w2, tr) \<Rightarrow>
               (case post self sh1 p e w2 of
                  (r, sh2, w3) \<Rightarrow>
                    (r, self\<lparr>cur_retry := c\<rparr>, sh2, w3,
                     Prep (Inr p) # tr @ [Post p e r]))))"

text \<open>\<^verbatim>\<open>run\<close>, for a step used on its own: warns when it has successors, then \<^verbatim>\<open>_run\<close>.\<close>

definition BaseNode_run ::
  "('v, 'x, 'w) node \<Rightarrow> 'v shared \<Rightarrow> 'w \<Rightarrow>
   'v warning list \<times> ('v, 'x) outcome \<times> ('v, 'x, 'w) node \<times> 'v shared \<times> 'w \<times> ('v, 'x) event list" where
  "BaseNode_run self shared w =
     ((if successors self \<noteq> [] then [WontRunSuccessors] else []), BaseNode__run self shared w)"

section \<open>The driver: \<^verbatim>\<open>flow.py\<close>\<close>

record 'v flow =
  start :: nat
  current_node :: nat
  shared_data :: "'v shared"
  history :: "nat list"

text \<open>\<^verbatim>\<open>Flow.__init__\<close>\<close>

definition Flow_init :: "nat \<Rightarrow> 'v flow" where
  "Flow_init st = \<lparr>start = st, current_node = st, shared_data = [], history = []\<rparr>"

text \<open>
  The state of the program: the driver object, the store of step objects (addresses
  to objects), the world of the phases, and the calls made so far, each with the
  address of the step it was made on.
\<close>

record ('v, 'x, 'w) machine =
  flow :: "'v flow"
  nodes :: "nat \<Rightarrow> ('v, 'x, 'w) node"
  world :: 'w
  log :: "(nat \<times> ('v, 'x) event) list"

text \<open>
  The selection of the next step (lines 31 to 39 of \<^verbatim>\<open>Flow.run\<close>): the pairs of
  \<^verbatim>\<open>current.successors.items()\<close> in insertion order; a callable key is applied to the
  result and taken when it holds, any other key is taken at once.
\<close>

fun select_next :: "'v pyval \<Rightarrow> ('v action, nat) dict \<Rightarrow> nat option" where
  "select_next prep_result [] = None"
| "select_next prep_result ((Callable i f, node) # rest) =
     (if f prep_result then Some node else select_next prep_result rest)"
| "select_next prep_result ((Label l, node) # rest) = Some node"

text \<open>
  One iteration of the loop up to the selection (lines 21 to 28): append the step to
  the history, call its \<^verbatim>\<open>prep\<close> on the shared dictionary and drop the result, then call
  its \<^verbatim>\<open>_run\<close>, which calls \<^verbatim>\<open>prep\<close> again, \<^verbatim>\<open>_exec\<close> and \<^verbatim>\<open>post\<close>.
\<close>

definition visit ::
  "('v, 'x, 'w) machine \<Rightarrow> nat \<Rightarrow> ('v, 'x) outcome \<times> ('v, 'x, 'w) machine" where
  "visit m current =
     (let fl = (flow m)\<lparr>history := history (flow m) @ [current]\<rparr> in
      case prep (nodes m current) (shared_data fl) (world m) of
        (Inl x, sh1, w1) \<Rightarrow>
          (Inl x, m\<lparr>flow := fl\<lparr>shared_data := sh1\<rparr>, world := w1,
                     log := log m @ [(current, Prep (Inl x))]\<rparr>)
      | (Inr p0, sh1, w1) \<Rightarrow>
          (case BaseNode__run (nodes m current) sh1 w1 of
             (out, nd, sh2, w2, tr) \<Rightarrow>
               (out, m\<lparr>flow := fl\<lparr>shared_data := sh2\<rparr>,
                        nodes := (nodes m)(current := nd), world := w2,
                        log := log m @ (current, Prep (Inr p0)) # map (Pair current) tr\<rparr>)))"

text \<open>
  The loop \<^verbatim>\<open>while current:\<close>. A step graph with a cycle makes it run forever, so the
  loop takes fuel, one unit for each iteration, and yields \<open>None\<close> when it runs out.
  An exception leaves the loop and the method with the state reached.
\<close>

fun run_loop ::
  "nat \<Rightarrow> ('v, 'x, 'w) machine \<Rightarrow> nat option \<Rightarrow> 'v pyval \<Rightarrow>
   (('v, 'x) outcome \<times> ('v, 'x, 'w) machine) option" where
  "run_loop fuel m None result = Some (Inr result, m)"
| "run_loop 0 m (Some current) result = None"
| "run_loop (Suc fuel) m (Some current) result =
     (case visit m current of
        (Inl x, m1) \<Rightarrow> Some (Inl x, m1)
      | (Inr prep_result, m1) \<Rightarrow>
          run_loop fuel m1 (select_next prep_result (successors (nodes m1 current)))
            prep_result)"

text \<open>
  \<^verbatim>\<open>if params: self.shared_data.update(params)\<close>: the argument defaults to \<^verbatim>\<open>None\<close>, and
  an empty dictionary is false as well.
\<close>

definition merge_params :: "'v shared option \<Rightarrow> 'v shared \<Rightarrow> 'v shared" where
  "merge_params ps shared =
     (case ps of None \<Rightarrow> shared
               | Some p \<Rightarrow> if p = [] then shared else dict_update shared p)"

text \<open>\<^verbatim>\<open>Flow.run\<close>\<close>

definition Flow_run ::
  "nat \<Rightarrow> 'v shared option \<Rightarrow> ('v, 'x, 'w) machine \<Rightarrow>
   (('v, 'x) outcome \<times> ('v, 'x, 'w) machine) option" where
  "Flow_run fuel ps m =
     run_loop fuel
       (m\<lparr>flow := (flow m)\<lparr>shared_data := merge_params ps (shared_data (flow m))\<rparr>\<rparr>)
       (Some (start (flow m))) PyNone"

text \<open>\<^verbatim>\<open>Flow.reset\<close>\<close>

definition Flow_reset :: "('v, 'x, 'w) machine \<Rightarrow> ('v, 'x, 'w) machine" where
  "Flow_reset m =
     m\<lparr>flow := (flow m)\<lparr>current_node := start (flow m), shared_data := [], history := []\<rparr>\<rparr>"

text \<open>
  Statements executed on the program state: \<^verbatim>\<open>a >> b\<close> for the steps at addresses
  \<open>a\<close> and \<open>b\<close> (the warnings are dropped here), and \<^verbatim>\<open>Flow(start)\<close>.
\<close>

definition rshift_at ::
  "nat \<Rightarrow> nat \<Rightarrow> (nat \<Rightarrow> ('v, 'x, 'w) node) \<Rightarrow> (nat \<Rightarrow> ('v, 'x, 'w) node)" where
  "rshift_at a b st = (case BaseNode_rshift (st a) b of (tgt, ws, nd) \<Rightarrow> st(a := nd))"

definition new_flow ::
  "nat \<Rightarrow> (nat \<Rightarrow> ('v, 'x, 'w) node) \<Rightarrow> 'w \<Rightarrow> ('v, 'x, 'w) machine" where
  "new_flow st store w = \<lparr>flow = Flow_init st, nodes = store, world = w, log = []\<rparr>"

section \<open>The text-generation service: \<^verbatim>\<open>LLMService.generate\<close>\<close>

text \<open>
  What \<^verbatim>\<open>generate\<close> sees of its environment: the cache file \<^verbatim>\<open>llm_cache.json\<close>, which is
  missing, or not readable as JSON, or holds a JSON object from prompts to responses
  (a file with any other JSON value is left out);
  whether writing the file fails, and with what message; the variable
  \<^verbatim>\<open>LLM_PROVIDER\<close>; the provider behind the client, which answers a prompt with a text
  or raises, depending on the calls made before; the calls made to the provider; and
  the lines written to the logger.
\<close>

datatype cache_store = Missing | Unreadable | Stored "(string, string) dict"

datatype log_entry = Info string | Warning string | Error string

record llm_env =
  cache_file :: cache_store
  save_error :: "string option"
  llm_provider :: "string option"
  provider_reply :: "string list \<Rightarrow> string \<Rightarrow> string + string"
  provider_calls :: "string list"
  logged :: "log_entry list"

definition logger :: "log_entry \<Rightarrow> llm_env \<Rightarrow> llm_env" where
  "logger entry env = env\<lparr>logged := logged env @ [entry]\<rparr>"

text \<open>
  Reading the cache: \<open>None\<close> when \<^verbatim>\<open>json.load\<close> raises, the empty dictionary when the
  file does not exist.
\<close>

definition load_cache :: "llm_env \<Rightarrow> (string, string) dict option" where
  "load_cache env =
     (case cache_file env of Missing \<Rightarrow> Some [] | Unreadable \<Rightarrow> None | Stored d \<Rightarrow> Some d)"

text \<open>
  The call of the provider chosen by \<^verbatim>\<open>LLM_PROVIDER\<close> (default \<^verbatim>\<open>gemini\<close>). For \<^verbatim>\<open>openai\<close> the
  client is the synchronous \<^verbatim>\<open>openai.OpenAI\<close> and \<^verbatim>\<open>generate\<close> awaits what its \<^verbatim>\<open>create\<close>
  returns: the call is made, and when it returns the \<^verbatim>\<open>await\<close> raises a \<^verbatim>\<open>TypeError\<close>.
\<close>

definition call_provider :: "string \<Rightarrow> llm_env \<Rightarrow> (string + string) \<times> llm_env" where
  "call_provider prompt env =
     (let provider = (case llm_provider env of None \<Rightarrow> ''gemini'' | Some p \<Rightarrow> p) in
      if provider = ''gemini'' \<or> provider = ''anthropic'' then
        (provider_reply env (provider_calls env) prompt,
         env\<lparr>provider_calls := provider_calls env @ [prompt]\<rparr>)
      else if provider = ''openai'' then
        ((case provider_reply env (provider_calls env) prompt of
            Inl e \<Rightarrow> Inl e
          | Inr response \<Rightarrow> Inl ''object ChatCompletion can't be used in await expression''),
         env\<lparr>provider_calls := provider_calls env @ [prompt]\<rparr>)
      else (Inl (''Unsupported LLM provider: '' @ provider), env))"

text \<open>Writing the response back (lines 121 to 137): reload, assign, save.\<close>

definition update_cache :: "string \<Rightarrow> string \<Rightarrow> llm_env \<Rightarrow> llm_env" where
  "update_cache prompt response_text env =
     (let cache = (case load_cache env of None \<Rightarrow> [] | Some d \<Rightarrow> d) in
      case save_error env of
        None \<Rightarrow> env\<lparr>cache_file := Stored (dict_set prompt response_text cache)\<rparr>
      | Some e \<Rightarrow> logger (Error (''Failed to save cache: '' @ e)) env)"

text \<open>
  \<^verbatim>\<open>generate\<close> returns the text (\<open>Inr\<close>) or raises
  \<^verbatim>\<open>Exception("LLM generation failed: ...")\<close> (\<open>Inl\<close> of the message).
\<close>

definition generate :: "string \<Rightarrow> bool \<Rightarrow> llm_env \<Rightarrow> (string + string) \<times> llm_env" where
  "generate prompt use_cache env =
     (let env1 = logger (Info (''PROMPT: '' @ prompt)) env;
          env2 = (if use_cache \<and> load_cache env1 = None
                  then logger (Warning ''Failed to load cache, starting with empty cache'') env1
                  else env1);
          cache = (if use_cache then (case load_cache env1 of None \<Rightarrow> [] | Some d \<Rightarrow> d) else [])
      in case map_of cache prompt of
           Some r \<Rightarrow> (Inr r, logger (Info (''CACHE HIT - RESPONSE: '' @ r)) env2)
         | None \<Rightarrow>
             (case call_provider prompt env2 of
                (Inl e, env3) \<Rightarrow>
                  (Inl (''LLM generation failed: '' @ e),
                   logger (Error (''LLM generation failed: '' @ e)) env3)
              | (Inr response_text, env3) \<Rightarrow>
                  (let env4 = logger (Info (''RESPONSE: '' @ response_text)) env3 in
                   (Inr response_text,
                    if use_cache then update_cache prompt response_text env4 else env4))))"

section \<open>Notions used to state the properties\<close>

text \<open>
  What \<^verbatim>\<open>exec\<close> does when it is called \<open>k\<close> times in a row on the same argument, from a
  given world: the outcomes of the calls, and the world after them.
\<close>

fun attempts ::
  "('v pyval \<Rightarrow> 'w \<Rightarrow> ('v, 'x) outcome \<times> 'w) \<Rightarrow> 'v pyval \<Rightarrow> nat \<Rightarrow> 'w \<Rightarrow> ('v, 'x) outcome list" where
  "attempts ex p 0 w = []"
| "attempts ex p (Suc k) w = (case ex p w of (r, w1) \<Rightarrow> r # attempts ex p k w1)"

fun world_after ::
  "('v pyval \<Rightarrow> 'w \<Rightarrow> ('v, 'x) outcome \<times> 'w) \<Rightarrow> 'v pyval \<Rightarrow> nat \<Rightarrow> 'w \<Rightarrow> 'w" where
  "world_after ex p 0 w = w"
| "world_after ex p (Suc k) w = world_after ex p k (snd (ex p w))"

text \<open>The calls of an attempt that raised \<open>e\<close> and is followed by another attempt.\<close>

definition failed_attempt :: "('v, 'x, 'w) node \<Rightarrow> 'v pyval \<Rightarrow> 'x \<Rightarrow> ('v, 'x) event list" where
  "failed_attempt nd p e =
     Exec p (Inl (Exception e)) # (if wait nd > 0 then [Sleep (wait nd)] else [])"

fun is_Exec :: "('v, 'x) event \<Rightarrow> bool" where
  "is_Exec (Exec p r) = True"
| "is_Exec ev = False"

fun is_Fallback :: "('v, 'x) event \<Rightarrow> bool" where
  "is_Fallback (Fallback p e r) = True"
| "is_Fallback ev = False"

fun is_Sleep :: "('v, 'x) event \<Rightarrow> bool" where
  "is_Sleep (Sleep d) = True"
| "is_Sleep ev = False"

definition exec_calls :: "('v, 'x) event list \<Rightarrow> nat" where
  "exec_calls tr = length (filter is_Exec tr)"

definition fallback_calls :: "('v, 'x) event list \<Rightarrow> nat" where
  "fallback_calls tr = length (filter is_Fallback tr)"

definition sleeps :: "('v, 'x) event list \<Rightarrow> nat" where
  "sleeps tr = length (filter is_Sleep tr)"

text \<open>Visiting the steps of a list one after the other, until one raises.\<close>

fun visit_all ::
  "('v, 'x, 'w) machine \<Rightarrow> nat list \<Rightarrow> 'v pyval \<Rightarrow> ('v, 'x) outcome \<times> ('v, 'x, 'w) machine" where
  "visit_all m [] result = (Inr result, m)"
| "visit_all m (c # cs) result =
     (case visit m c of (Inl x, m1) \<Rightarrow> (Inl x, m1)
                      | (Inr r, m1) \<Rightarrow> visit_all m1 cs r)"

text \<open>
  A pair of a transition table is taken on a result when its key is a plain label, or
  a predicate that holds on the result.
\<close>

fun taken :: "'v pyval \<Rightarrow> 'v action \<times> nat \<Rightarrow> bool" where
  "taken r (Label l, n) = True"
| "taken r (Callable i f, n) = f r"

text \<open>
  The steps a run of the loop visits, in that order: the steps on which the body of
  the loop is run, from the cursor on, as far as the fuel goes. For a call of
  \<^verbatim>\<open>run(ps)\<close> the loop starts on the start step, with the parameters merged.
\<close>

fun visited :: "nat \<Rightarrow> ('v, 'x, 'w) machine \<Rightarrow> nat option \<Rightarrow> nat list" where
  "visited fuel m None = []"
| "visited 0 m (Some current) = []"
| "visited (Suc fuel) m (Some current) =
     current # (case visit m current of
                  (Inl x, m1) \<Rightarrow> []
                | (Inr r, m1) \<Rightarrow>
                    visited fuel m1 (select_next r (successors (nodes m1 current))))"

definition run_visits :: "nat \<Rightarrow> 'v shared option \<Rightarrow> ('v, 'x, 'w) machine \<Rightarrow> nat list" where
  "run_visits fuel ps m =
     visited fuel
       (m\<lparr>flow := (flow m)\<lparr>shared_data := merge_params ps (shared_data (flow m))\<rparr>\<rparr>)
       (Some (start (flow m)))"

text \<open>What is left when a run has ended: its history, its log, its world.\<close>

definition final_history ::
  "(('v, 'x) outcome \<times> ('v, 'x, 'w) machine) option \<Rightarrow> nat list option" where
  "final_history res = map_option (\<lambda>(out, m). history (flow m)) res"

definition final_log ::
  "(('v, 'x) outcome \<times> ('v, 'x, 'w) machine) option \<Rightarrow> (nat \<times> ('v, 'x) event) list option" where
  "final_log res = map_option (\<lambda>(out, m). log m) res"

definition final_world :: "(('v, 'x) outcome \<times> ('v, 'x, 'w) machine) option \<Rightarrow> 'w option" where
  "final_world res = map_option (\<lambda>(out, m). world m) res"

text \<open>\<^verbatim>\<open>flow.run(params); flow.run(params)\<close>: a second run on the driver as the first left it.\<close>

definition run_twice ::
  "nat \<Rightarrow> 'v shared option \<Rightarrow> ('v, 'x, 'w) machine \<Rightarrow>
   (('v, 'x) outcome \<times> ('v, 'x, 'w) machine) option" where
  "run_twice fuel ps m =
     (case Flow_run fuel ps m of
        Some (Inr r, m1) \<Rightarrow> Flow_run fuel ps m1
      | other \<Rightarrow> other)"

section \<open>Example steps, pipelines and environments\<close>

text \<open>
  Steps over natural numbers whose world counts the calls: one whose \<^verbatim>\<open>exec\<close> always
  raises, with the number of the call as the exception; one whose \<^verbatim>\<open>exec\<close> succeeds at the
  third call; one with \<^verbatim>\<open>max_retries=0\<close>; one whose \<^verbatim>\<open>prep\<close> counts its calls.
\<close>

definition failing_step :: "(nat, nat, nat) node" where
  "failing_step = (Node_init 3 2)\<lparr>exec := (\<lambda>p w. (Inl (Exception w), Suc w))\<rparr>"

definition flaky_step :: "(nat, nat, nat) node" where
  "flaky_step =
     (Node_init 3 2)\<lparr>exec := (\<lambda>p w. (if w < 2 then Inl (Exception w) else Inr (Val 7), Suc w))\<rparr>"

definition idle_step :: "(nat, nat, nat) node" where
  "idle_step = (Node_init 0 5)\<lparr>exec := (\<lambda>p w. (Inr (Val 1), Suc w))\<rparr>"

definition counting_step :: "(nat, nat, nat) node" where
  "counting_step = (Node_init 1 0)\<lparr>prep := (\<lambda>sh w. (Inr PyNone, sh, Suc w))\<rparr>"

definition single_flow :: "(nat, nat, nat) machine" where
  "single_flow = new_flow 0 (\<lambda>a. counting_step) 0"

text \<open>Three steps, the step at address \<open>i\<close> returning \<open>i\<close> from \<^verbatim>\<open>post\<close>, chained by \<^verbatim>\<open>>>\<close>.\<close>

definition numbered_step :: "nat \<Rightarrow> (nat, nat, nat) node" where
  "numbered_step i = (Node_init 1 0)\<lparr>post := (\<lambda>sh p e w. (Inr (Val i), sh, w))\<rparr>"

definition chain_flow :: "(nat, nat, nat) machine" where
  "chain_flow = new_flow 0 (rshift_at 1 2 (rshift_at 0 1 numbered_step)) 0"

definition branching_step :: "(nat, nat, nat) node" where
  "branching_step =
     (Node_init 1 0)\<lparr>successors := [(Label ''default'', 1), (Label ''retry'', 2)]\<rparr>"

definition warm_env :: llm_env where
  "warm_env =
     \<lparr>cache_file = Stored [(''q'', ''s''), (''p'', ''r'')], save_error = None,
      llm_provider = None, provider_reply = (\<lambda>calls prompt. Inr ''fresh''),
      provider_calls = [], logged = []\<rparr>"

text \<open>A driver that has been used: keys in its shared dictionary, a step in its history.\<close>

definition used_flow :: "(nat, nat, nat) machine" where
  "used_flow =
     single_flow\<lparr>flow := (flow single_flow)\<lparr>shared_data := [(''repo_url'', Val 1)],
                                              history := [0]\<rparr>\<rparr>"

text \<open>The chain of three steps after a run: its history holds the three steps.\<close>

definition used_chain :: "(nat, nat, nat) machine" where
  "used_chain = chain_flow\<lparr>flow := (flow chain_flow)\<lparr>history := [0, 1, 2]\<rparr>\<rparr>"

section \<open>The retry loop\<close>

text \<open>
  A run of attempts that all raise and none of which is the last one allowed: the loop
  goes through them, one failed attempt after the other, and carries on with the
  indices that remain.
\<close>

lemma retry_loop_failing_prefix:
  "attempts (exec nd) p (length es) w = map (\<lambda>e. Inl (Exception e)) es \<Longrightarrow>
   int j + int (length es) < max_retries nd \<Longrightarrow>
   retry_loop nd p (map int [j ..< j + length es] @ rest) cur w =
     (case retry_loop nd p rest (if es = [] then cur else int (j + length es) - 1)
             (world_after (exec nd) p (length es) w) of
        (r, c, w2, tr) \<Rightarrow> (r, c, w2, concat (map (failed_attempt nd p) es) @ tr))"
proof (induction es arbitrary: j cur w)
  case Nil
  then show ?case by (simp split: prod.splits)
next
  case (Cons e es)
  obtain w1 where ex: "exec nd p w = (Inl (Exception e), w1)"
    and rest: "attempts (exec nd) p (length es) w1 = map (\<lambda>e. Inl (Exception e)) es"
    using Cons.prems(1) by (auto split: prod.splits)
  have idx: "[j ..< j + length (e # es)] = j # [Suc j ..< Suc j + length es]"
  proof -
    have "[j ..< j + Suc (length es)] = j # [Suc j ..< j + Suc (length es)]"
      by (rule upt_conv_Cons) simp
    then show ?thesis by simp
  qed
  have ne: "int j \<noteq> max_retries nd - 1" using Cons.prems(2) by simp
  have bound: "int (Suc j) + int (length es) < max_retries nd" using Cons.prems(2) by simp
  let ?tl = "map int [Suc j ..< Suc j + length es] @ rest"
  have step: "retry_loop nd p (int j # ?tl) cur w =
      (case retry_loop nd p ?tl (int j) w1 of
         (r, c, w2, tr) \<Rightarrow> (r, c, w2, failed_attempt nd p e @ tr))"
    using ex ne by (simp add: failed_attempt_def split: prod.splits)
  have cur': "(if es = [] then int j else int (Suc j + length es) - 1)
      = int (j + length (e # es)) - 1"
    by simp
  have wa: "world_after (exec nd) p (length (e # es)) w = world_after (exec nd) p (length es) w1"
    using ex by simp
  have unroll: "retry_loop nd p (map int [j ..< j + length (e # es)] @ rest) cur w
      = retry_loop nd p (int j # ?tl) cur w"
    by (simp only: idx list.map append_Cons)
  note ih = Cons.IH [OF rest bound, of "int j"]
  show ?case
    unfolding unroll step ih wa
    using cur' by (simp split: prod.splits)
qed


lemma length_attempts: "length (attempts ex p k w) = k"
  by (induction k arbitrary: w) (auto split: prod.splits)

lemma attempts_append:
  "attempts ex p (j + k) w = attempts ex p j w @ attempts ex p k (world_after ex p j w)"
  by (induction j arbitrary: w) (auto split: prod.splits)

lemma world_after_append:
  "world_after ex p (j + k) w = world_after ex p k (world_after ex p j w)"
  by (induction j arbitrary: w) auto

lemma upt_split_at:
  assumes "k < n"
  shows "map int [0 ..< n] = map int [0 ..< 0 + k] @ (int k # map int [Suc k ..< n])"
proof -
  have "[0 ..< k + (n - k)] = [0 ..< k] @ [k ..< k + (n - k)]"
    by (rule upt_add_eq_append) simp
  moreover have "[k ..< n] = k # [Suc k ..< n]"
    using assms by (rule upt_conv_Cons)
  ultimately show ?thesis using assms by simp
qed

lemma calls_failed_attempts:
  "exec_calls (concat (map (failed_attempt nd p) es) @ tr) = length es + exec_calls tr"
  "fallback_calls (concat (map (failed_attempt nd p) es) @ tr) = fallback_calls tr"
  "sleeps (concat (map (failed_attempt nd p) es) @ tr)
     = (if wait nd > 0 then length es else 0) + sleeps tr"
  by (induction es) (simp_all add: exec_calls_def fallback_calls_def sleeps_def failed_attempt_def)

text \<open>
  C10: a \<^verbatim>\<open>Node\<close> with \<^verbatim>\<open>max_retries = 0\<close>: for every prep result \<^verbatim>\<open>_exec\<close> returns
  \<^verbatim>\<open>None\<close> and calls neither \<^verbatim>\<open>exec\<close> nor \<^verbatim>\<open>exec_fallback\<close> (no call is made at all, the
  world and \<^verbatim>\<open>cur_retry\<close> stay as they were): the body of the loop never runs.
\<close>

theorem Node_exec_zero_retries:
  "max_retries nd = 0 \<Longrightarrow> Node__exec nd prep_res w = (Inr PyNone, cur_retry nd, w, [])"
  by (simp add: Node__exec_def)

theorem Node_exec_zero_retries_witness:
  "max_retries idle_step = 0 \<and> Node__exec idle_step (Val 4) 0 = (Inr PyNone, 0, 0, [])"
proof -
  have h: "max_retries idle_step = 0"
    by (simp add: idle_step_def Node_init_def BaseNode_init_def)
  have "cur_retry idle_step = 0"
    by (simp add: idle_step_def Node_init_def BaseNode_init_def)
  with h Node_exec_zero_retries [OF h, of "Val 4" 0] show ?thesis by simp
qed

text \<open>
  C4: a \<^verbatim>\<open>Node\<close> with \<^verbatim>\<open>max_retries = N\<close> whose \<^verbatim>\<open>exec\<close> raises the exceptions \<open>es\<close> on its
  first \<open>k - 1\<close> calls and returns \<open>v\<close> on call \<open>k = length es + 1 \<le> N\<close>: \<^verbatim>\<open>_exec\<close> returns
  \<open>v\<close>, calls \<^verbatim>\<open>exec\<close> exactly \<open>k\<close> times and \<^verbatim>\<open>exec_fallback\<close> never; its calls are the
  \<open>k - 1\<close> failed attempts and then the successful call, with nothing after it, so
  that it sleeps \<open>k - 1\<close> times when \<^verbatim>\<open>wait > 0\<close> and never otherwise.
\<close>

theorem Node_exec_success_at_k:
  assumes outs: "attempts (exec nd) p (Suc (length es)) w
                   = map (\<lambda>e. Inl (Exception e)) es @ [Inr v]"
      and k_le: "int (Suc (length es)) \<le> max_retries nd"
  shows "\<exists>tr. Node__exec nd p w
                = (Inr v, int (length es), world_after (exec nd) p (Suc (length es)) w, tr)
           \<and> exec_calls tr = Suc (length es)
           \<and> fallback_calls tr = 0
           \<and> sleeps tr = (if wait nd > 0 then length es else 0)
           \<and> tr = concat (map (failed_attempt nd p) es) @ [Exec p (Inr v)]"
proof -
  let ?k = "length es" and ?n = "nat (max_retries nd)"
  let ?w1 = "world_after (exec nd) p ?k w"
  have app: "attempts (exec nd) p (?k + 1) w
      = attempts (exec nd) p ?k w @ attempts (exec nd) p 1 ?w1"
    by (rule attempts_append)
  have len: "length (attempts (exec nd) p ?k w) = ?k" by (rule length_attempts)
  from outs app len have pre: "attempts (exec nd) p ?k w = map (\<lambda>e. Inl (Exception e)) es"
    and kth: "attempts (exec nd) p 1 ?w1 = [Inr v]"
    by auto
  from kth obtain w2 where ex: "exec nd p ?w1 = (Inr v, w2)"
    by (auto split: prod.splits)
  have w2: "world_after (exec nd) p (Suc ?k) w = w2"
    using world_after_append [of "exec nd" p ?k 1 w] ex by simp
  have idx: "map int [0 ..< ?n] = map int [0 ..< 0 + ?k] @ (int ?k # map int [Suc ?k ..< ?n])"
    by (rule upt_split_at) (use k_le in linarith)
  have bound: "int 0 + int ?k < max_retries nd" using k_le by simp
  have loop: "Node__exec nd p w
      = (Inr v, int ?k, w2, concat (map (failed_attempt nd p) es) @ [Exec p (Inr v)])"
    unfolding Node__exec_def idx retry_loop_failing_prefix [OF pre bound]
    using ex by simp
  show ?thesis
    unfolding loop w2 by (simp add: calls_failed_attempts) (simp add: exec_calls_def fallback_calls_def sleeps_def)
qed


theorem Node_exec_success_at_k_witness:
  "attempts (exec flaky_step) PyNone (Suc (length [0, 1 :: nat])) 0
     = map (\<lambda>e. Inl (Exception e)) [0, 1] @ [Inr (Val 7)]
   \<and> int (Suc (length [0, 1 :: nat])) \<le> max_retries flaky_step
   \<and> Node__exec flaky_step PyNone 0
       = (Inr (Val 7), 2, 3,
          [Exec PyNone (Inl (Exception 0)), Sleep 2, Exec PyNone (Inl (Exception 1)), Sleep 2,
           Exec PyNone (Inr (Val 7))])"
proof -
  have ex: "exec flaky_step = (\<lambda>p w. (if w < 2 then Inl (Exception w) else Inr (Val 7), Suc w))"
    and n: "max_retries flaky_step = 3" and wt: "wait flaky_step = 2"
    by (simp_all add: flaky_step_def Node_init_def BaseNode_init_def)
  have h1: "attempts (exec flaky_step) PyNone (Suc (length [0, 1 :: nat])) 0
      = map (\<lambda>e. Inl (Exception e)) [0, 1] @ [Inr (Val 7)]"
    by (simp add: ex)
  have h2: "int (Suc (length [0, 1 :: nat])) \<le> max_retries flaky_step"
    by (simp add: n)
  from Node_exec_success_at_k [OF h1 h2] h1 h2 show ?thesis
    by (simp add: ex failed_attempt_def wt)
qed

text \<open>
  C1: a \<^verbatim>\<open>Node\<close> with \<^verbatim>\<open>max_retries = N \<ge> 1\<close> whose \<^verbatim>\<open>exec\<close> raises on each of its \<open>N\<close>
  calls, the exceptions being \<open>es\<close>: \<^verbatim>\<open>_exec\<close> calls \<^verbatim>\<open>exec\<close> exactly \<open>N\<close> times and
  \<^verbatim>\<open>exec_fallback\<close> exactly once, on the prep result and the exception of the \<open>N\<close>th call,
  and returns or raises what the fallback does; the \<open>N\<close>th call of \<^verbatim>\<open>exec\<close> is followed
  by the fallback at once, so that it sleeps \<open>N - 1\<close> times when \<^verbatim>\<open>wait > 0\<close> and never
  otherwise.
\<close>

theorem Node_exec_all_attempts_fail:
  assumes N: "1 \<le> max_retries nd"
      and outs: "attempts (exec nd) p (nat (max_retries nd)) w
                   = map (\<lambda>e. Inl (Exception e)) es"
  shows "\<exists>tr r w'.
           exec_fallback nd p (last es) (world_after (exec nd) p (nat (max_retries nd)) w) = (r, w')
           \<and> Node__exec nd p w = (r, max_retries nd - 1, w', tr)
           \<and> exec_calls tr = nat (max_retries nd)
           \<and> fallback_calls tr = 1
           \<and> sleeps tr = (if wait nd > 0 then nat (max_retries nd) - 1 else 0)
           \<and> tr = concat (map (failed_attempt nd p) (butlast es))
                    @ [Exec p (Inl (Exception (last es))), Fallback p (last es) r]"
proof -
  let ?n = "nat (max_retries nd)"
  let ?k = "length (butlast es)"
  let ?w1 = "world_after (exec nd) p ?k w"
  have len: "length es = ?n"
    using length_attempts [of "exec nd" p ?n w] outs by simp
  then have ne: "es \<noteq> []" and n: "?n = ?k + 1" using N by auto
  have es: "es = butlast es @ [last es]" using ne by simp
  have "attempts (exec nd) p ?k w @ attempts (exec nd) p 1 ?w1
      = map (\<lambda>e. Inl (Exception e)) (butlast es) @ [Inl (Exception (last es))]"
    using outs attempts_append [of "exec nd" p ?k 1 w] n es
    by (metis list.simps(8,9) map_append)
  then have pre: "attempts (exec nd) p ?k w = map (\<lambda>e. Inl (Exception e)) (butlast es)"
    and nth: "attempts (exec nd) p 1 ?w1 = [Inl (Exception (last es))]"
    using length_attempts [of "exec nd" p ?k w] by auto
  from nth obtain w2 where ex: "exec nd p ?w1 = (Inl (Exception (last es)), w2)"
    by (auto split: prod.splits)
  have w2: "world_after (exec nd) p ?n w = w2"
    using world_after_append [of "exec nd" p ?k 1 w] ex n by simp
  obtain r w' where fb: "exec_fallback nd p (last es) w2 = (r, w')"
    by (cases "exec_fallback nd p (last es) w2")
  have idx: "map int [0 ..< ?n] = map int [0 ..< 0 + ?k] @ (int ?k # map int [Suc ?k ..< ?n])"
    by (rule upt_split_at) (use n in linarith)
  have bound: "int 0 + int ?k < max_retries nd" using n N by linarith
  have last_idx: "int ?k = max_retries nd - 1" using n N by linarith
  have loop: "Node__exec nd p w
      = (r, max_retries nd - 1, w',
         concat (map (failed_attempt nd p) (butlast es))
           @ [Exec p (Inl (Exception (last es))), Fallback p (last es) r])"
    unfolding Node__exec_def idx retry_loop_failing_prefix [OF pre bound]
    using ex fb last_idx n by simp
  have counts: "exec_calls [Exec p (Inl (Exception (last es))), Fallback p (last es) r] = 1"
    "fallback_calls [Exec p (Inl (Exception (last es))), Fallback p (last es) r] = 1"
    "sleeps [Exec p (Inl (Exception (last es))), Fallback p (last es) r] = 0"
    by (simp_all add: exec_calls_def fallback_calls_def sleeps_def)
  show ?thesis
    unfolding loop w2 fb using n by (simp add: calls_failed_attempts counts)
qed

theorem Node_exec_all_attempts_fail_witness:
  "1 \<le> max_retries failing_step
   \<and> attempts (exec failing_step) (Val 9) (nat (max_retries failing_step)) 0
       = map (\<lambda>e. Inl (Exception e)) [0, 1, 2]
   \<and> Node__exec failing_step (Val 9) 0
       = (Inl (Exception 2), 2, 3,
          [Exec (Val 9) (Inl (Exception 0)), Sleep 2, Exec (Val 9) (Inl (Exception 1)), Sleep 2,
           Exec (Val 9) (Inl (Exception 2)), Fallback (Val 9) 2 (Inl (Exception 2))])"
proof -
  have ex: "exec failing_step = (\<lambda>p w. (Inl (Exception w), Suc w))"
    and n: "max_retries failing_step = 3" and wt: "wait failing_step = 2"
    and fb: "exec_fallback failing_step = default_exec_fallback"
    by (simp_all add: failing_step_def Node_init_def BaseNode_init_def)
  have three: "nat (3::int) = Suc (Suc (Suc 0))" by simp
  have h1: "1 \<le> max_retries failing_step" by (simp add: n)
  have h2: "attempts (exec failing_step) (Val 9) (nat (max_retries failing_step)) 0
      = map (\<lambda>e. Inl (Exception e)) [0, 1, 2]"
    unfolding ex n three by simp
  have wa: "world_after (exec failing_step) (Val 9) (nat (max_retries failing_step)) 0 = 3"
    unfolding ex n three by simp
  from Node_exec_all_attempts_fail [OF h1 h2] h1 h2 wa show ?thesis
    by (simp add: fb default_exec_fallback_def failed_attempt_def wt n)
qed

section \<open>Transitions\<close>

lemma dict_contains_iff: "dict_contains k d \<longleftrightarrow> k \<in> fst ` set d"
  by (simp add: dict_contains_def map_of_eq_None_iff)

lemma dict_set_fresh: "k \<notin> fst ` set d \<Longrightarrow> dict_set k v d = d @ [(k, v)]"
  by (induction d) auto

lemma dict_set_present:
  "distinct (map fst d) \<Longrightarrow> k \<in> fst ` set d \<Longrightarrow>
   dict_set k v d = map (\<lambda>(k', v'). if k' = k then (k', v) else (k', v')) d"
proof (induction d)
  case Nil
  then show ?case by simp
next
  case (Cons a d)
  obtain k' v' where a: "a = (k', v')" by (cases a)
  show ?case
  proof (cases "k' = k")
    case True
    then have "k \<notin> fst ` set d" using Cons.prems(1) a by auto
    then have "map (\<lambda>(k', v'). if k' = k then (k', v) else (k', v')) d = d"
      by (intro map_idI) (auto simp: image_iff)
    then show ?thesis using True a by simp
  next
    case False
    then show ?thesis using Cons a by auto
  qed
qed

lemma keys_dict_set:
  "map fst (dict_set k v d) = (if k \<in> fst ` set d then map fst d else map fst d @ [k])"
  by (induction d) (force+)

lemma distinct_dict_set: "distinct (map fst d) \<Longrightarrow> distinct (map fst (dict_set k v d))"
  by (simp add: keys_dict_set)

text \<open>
  C8: registering a transition under a key that is already in the step's table emits
  the warning, and the call goes on: the successor of that key is replaced where the
  key stands and every other entry stays as it is; registering a new key emits no
  warning and appends the entry. In both cases \<^verbatim>\<open>next\<close> returns the target, and the keys
  stay unique.
\<close>

theorem BaseNode_next_registers:
  assumes "distinct (map fst (successors self))"
  shows "BaseNode_next self node action =
           (if action \<in> fst ` set (successors self)
            then (node, [OverwritingSuccessor action],
                  self\<lparr>successors :=
                         map (\<lambda>(k, n). if k = action then (k, node) else (k, n)) (successors self)\<rparr>)
            else (node, [], self\<lparr>successors := successors self @ [(action, node)]\<rparr>))
         \<and> distinct (map fst (successors (snd (snd (BaseNode_next self node action)))))"
  using assms
  by (simp add: BaseNode_next_def dict_contains_iff dict_set_fresh dict_set_present distinct_dict_set)

theorem BaseNode_next_registers_witness:
  "distinct (map fst (successors branching_step))
   \<and> BaseNode_next branching_step 5 (Label ''default'')
       = (5, [OverwritingSuccessor (Label ''default'')],
          branching_step\<lparr>successors := [(Label ''default'', 5), (Label ''retry'', 2)]\<rparr>)
   \<and> BaseNode_next branching_step 5 (Label ''done'')
       = (5, [],
          branching_step\<lparr>successors :=
                           [(Label ''default'', 1), (Label ''retry'', 2), (Label ''done'', 5)]\<rparr>)"
proof -
  have s: "successors branching_step = [(Label ''default'', 1), (Label ''retry'', 2)]"
    by (simp add: branching_step_def)
  have h: "distinct (map fst (successors branching_step))"
    by (simp add: s)
  from BaseNode_next_registers [OF h, of 5 "Label ''default''"]
    BaseNode_next_registers [OF h, of 5 "Label ''done''"] h
  show ?thesis by (simp add: s)
qed

text \<open>
  C2: a step whose table has a plain-label pair registered before any predicate pair
  has a plain label as its first pair. The selection then takes the successor of that
  pair for every result, whatever is registered after it: the pair taken is the label
  pair, never a predicate pair that follows. This is an instance of the rule of the
  selection, for any table: the first pair in registration order that is taken, a
  plain label or a predicate that holds on the result, gives the successor.
\<close>

theorem select_next_label_first:
  "select_next r ((Label l, s) # rest) = Some s
   \<and> find (taken r) ((Label l, s) # rest) = Some (Label l, s)
   \<and> select_next r tbl = map_option snd (find (taken r) tbl)"
proof -
  have "select_next r tbl = map_option snd (find (taken r) tbl)"
    by (induction r tbl rule: select_next.induct) simp_all
  then show ?thesis by simp
qed

theorem select_next_label_first_witness:
  "select_next (Val (1::nat)) [(Label ''default'', 2), (Callable 0 (\<lambda>r. r = Val 1), 3)]
     = Some (2::nat)"
  using select_next_label_first
    [of "Val (1::nat)" "''default''" 2 "[(Callable 0 (\<lambda>r. r = Val 1), 3)]"]
  by simp

section \<open>The cache of the text-generation service\<close>

text \<open>
  C9: when the cache file maps the prompt to \<open>r\<close>, \<^verbatim>\<open>generate(prompt, use_cache=True)\<close>
  returns \<open>r\<close> and makes no call to the provider; it only logs the prompt and the hit.
\<close>

theorem generate_cache_hit:
  assumes "cache_file env = Stored d" and "map_of d prompt = Some r"
  shows "generate prompt True env
           = (Inr r, env\<lparr>logged := logged env @ [Info (''PROMPT: '' @ prompt),
                                                   Info (''CACHE HIT - RESPONSE: '' @ r)]\<rparr>)
         \<and> provider_calls (snd (generate prompt True env)) = provider_calls env"
  using assms by (simp add: generate_def logger_def load_cache_def Let_def)

theorem generate_cache_hit_witness:
  "cache_file warm_env = Stored [(''q'', ''s''), (''p'', ''r'')]
   \<and> map_of [(''q'', ''s''), (''p'', ''r'')] ''p'' = Some ''r''
   \<and> fst (generate ''p'' True warm_env) = Inr ''r''
   \<and> provider_calls (snd (generate ''p'' True warm_env)) = []"
proof -
  have h1: "cache_file warm_env = Stored [(''q'', ''s''), (''p'', ''r'')]"
    and pc: "provider_calls warm_env = []"
    by (simp_all add: warm_env_def)
  have h2: "map_of [(''q'', ''s''), (''p'', ''r'')] ''p'' = Some ''r''" by simp
  from generate_cache_hit [OF h1 h2] h1 h2 pc show ?thesis by simp
qed

section \<open>The driver\<close>

lemma flow_cleared:
  "fl\<lparr>current_node := start fl, shared_data := [], history := []\<rparr> = Flow_init (start fl)"
  by (cases fl) (simp add: Flow_init_def)

lemmas run_defs = Flow_run_def new_flow_def Flow_init_def visit_def BaseNode__run_def dispatch_exec_def
  Node__exec_def BaseNode__exec_def Node_init_def BaseNode_init_def default_prep_def default_exec_def
  default_post_def default_exec_fallback_def merge_params_def Let_def

text \<open>
  C7: in every state, \<^verbatim>\<open>reset()\<close> leaves the driver as \<^verbatim>\<open>Flow(start)\<close> builds it: the
  cursor on the start step, the shared dictionary empty, the history empty. The steps
  (their parameters and transition tables) and the world are not touched. The state
  after \<^verbatim>\<open>reset()\<close> does not depend on what the shared dictionary and the history held,
  and a run without parameters (\<^verbatim>\<open>{}\<close> or \<^verbatim>\<open>None\<close>) that follows is the loop started on
  the freshly built driver, so on an empty shared dictionary.
\<close>

theorem Flow_reset_clears:
  "flow (Flow_reset m) = Flow_init (start (flow m))
   \<and> nodes (Flow_reset m) = nodes m
   \<and> world (Flow_reset m) = world m
   \<and> Flow_reset (m\<lparr>flow := (flow m)\<lparr>shared_data := sd, history := h\<rparr>\<rparr>) = Flow_reset m
   \<and> Flow_run fuel (Some []) (Flow_reset m)
       = run_loop fuel (m\<lparr>flow := Flow_init (start (flow m))\<rparr>) (Some (start (flow m))) PyNone
   \<and> Flow_run fuel None (Flow_reset m)
       = run_loop fuel (m\<lparr>flow := Flow_init (start (flow m))\<rparr>) (Some (start (flow m))) PyNone"
  by (simp add: Flow_reset_def flow_cleared Flow_run_def merge_params_def)
    (simp add: Flow_init_def)

theorem Flow_reset_clears_witness:
  "shared_data (flow used_flow) = [(''repo_url'', Val 1)]
   \<and> shared_data (flow (Flow_reset used_flow)) = []
   \<and> history (flow (Flow_reset used_flow)) = []
   \<and> current_node (flow (Flow_reset used_flow)) = start (flow used_flow)
   \<and> nodes (Flow_reset used_flow) = nodes used_flow"
  using Flow_reset_clears [of used_flow]
  by (simp add: Flow_init_def used_flow_def)

text \<open>
  C3 does not hold of \<^verbatim>\<open>Flow.run\<close>: on the driver of one step whose \<^verbatim>\<open>prep\<close> counts its
  calls, a run calls \<^verbatim>\<open>prep\<close> twice (once from \<^verbatim>\<open>Flow.run\<close>, once from \<^verbatim>\<open>_run\<close>), then
  \<^verbatim>\<open>exec\<close>, then \<^verbatim>\<open>post\<close>; the counter ends at 2.
\<close>

theorem Flow_run_calls_prep_twice:
  "final_log (Flow_run (Suc 0) None single_flow)
     = Some [(0, Prep (Inr PyNone)), (0, Prep (Inr PyNone)),
             (0, Exec PyNone (Inr PyNone)), (0, Post PyNone PyNone (Inr PyNone))]
   \<and> final_world (Flow_run (Suc 0) None single_flow) = Some 2"
  by (simp add: final_log_def final_world_def single_flow_def counting_step_def run_defs)

lemma visit_flow_fields:
  "start (flow (snd (visit m c))) = start (flow m)"
  "current_node (flow (snd (visit m c))) = current_node (flow m)"
  "history (flow (snd (visit m c))) = history (flow m) @ [c]"
  by (simp_all add: visit_def Let_def split: prod.splits sum.splits)

lemma visit_successors:
  "successors (nodes (snd (visit m c)) a) = successors (nodes m a)"
  by (simp add: visit_def BaseNode__run_def Let_def split: prod.splits sum.splits)

lemma visit_set_history:
  "visit (m\<lparr>flow := (flow m)\<lparr>history := h\<rparr>\<rparr>) c
     = (case visit m c of
          (out, m1) \<Rightarrow> (out, m1\<lparr>flow := (flow m1)\<lparr>history := h @ [c]\<rparr>\<rparr>))"
  by (simp add: visit_def Let_def split: prod.splits sum.splits)

lemma visit_log:
  "\<exists>blk. log (snd (visit m c)) = log m @ blk \<and> blk \<noteq> [] \<and> map fst blk = replicate (length blk) c"
  by (auto simp: visit_def Let_def map_replicate_const comp_def split: prod.splits sum.splits)

lemma remdups_adj_block:
  "0 < n \<Longrightarrow> remdups_adj (replicate n c @ zs) = remdups_adj (c # zs)"
proof (induction n)
  case 0 then show ?case by simp
next
  case (Suc n)
  then show ?case by (cases n) simp_all
qed

lemma remdups_adj_cong_Cons:
  "remdups_adj zs = remdups_adj zs' \<Longrightarrow> remdups_adj (c # zs) = remdups_adj (c # zs')"
  by (simp add: remdups_adj_Cons)


lemma run_loop_visited:
  "run_loop fuel m cur r = Some (out, m') \<Longrightarrow>
   history (flow m') = history (flow m) @ visited fuel m cur
   \<and> start (flow m') = start (flow m)
   \<and> current_node (flow m') = current_node (flow m)
   \<and> (\<exists>calls. log m' = log m @ calls
          \<and> remdups_adj (map fst calls) = remdups_adj (visited fuel m cur))
   \<and> (\<forall>h. run_loop fuel (m\<lparr>flow := (flow m)\<lparr>history := h\<rparr>\<rparr>) cur r
            = Some (out, m'\<lparr>flow := (flow m')\<lparr>history := h @ visited fuel m cur\<rparr>\<rparr>))"
proof (induction fuel m cur r rule: run_loop.induct)
  case (1 fuel m result)
  then show ?case by auto
next
  case (2 m current result)
  then show ?case by simp
next
  case (3 fuel m current result)
  obtain o1 m1 where v: "visit m current = (o1, m1)" by (cases "visit m current")
  have fl: "start (flow m1) = start (flow m)" "current_node (flow m1) = current_node (flow m)"
    "history (flow m1) = history (flow m) @ [current]"
    using visit_flow_fields [of m current] v by simp_all
  obtain blk where blk: "log m1 = log m @ blk" "blk \<noteq> []"
    "map fst blk = replicate (length blk) current"
    using visit_log [of m current] v by auto
  have one: "remdups_adj (map fst blk @ zs) = remdups_adj (current # zs)" for zs
    using blk(2,3) by (simp add: remdups_adj_block)
  show ?case
  proof (cases o1)
    case (Inl x)
    with v "3.prems" have "out = Inl x" "m' = m1" by simp_all
    moreover have "remdups_adj (map fst blk) = [current]"
      using one [of "[]"] by simp
    ultimately show ?thesis
      using v Inl fl blk(1) by (simp add: visit_set_history)
  next
    case (Inr pr)
    let ?nxt = "select_next pr (successors (nodes m1 current))"
    let ?V = "visited fuel m1 ?nxt"
    from v Inr "3.prems" have run: "run_loop fuel m1 ?nxt pr = Some (out, m')" by simp
    from "3.IH" [OF v [symmetric] Inr run] obtain calls where
      h: "history (flow m') = history (flow m1) @ ?V"
      and st: "start (flow m') = start (flow m1)" "current_node (flow m') = current_node (flow m1)"
      and lg: "log m' = log m1 @ calls" "remdups_adj (map fst calls) = remdups_adj ?V"
      and gen: "\<And>h. run_loop fuel (m1\<lparr>flow := (flow m1)\<lparr>history := h\<rparr>\<rparr>) ?nxt pr
              = Some (out, m'\<lparr>flow := (flow m')\<lparr>history := h @ ?V\<rparr>\<rparr>)"
      by blast
    have vis: "visited (Suc fuel) m (Some current) = current # ?V"
      using v Inr by simp
    have "remdups_adj (map fst (blk @ calls)) = remdups_adj (current # ?V)"
      using one [of "map fst calls"] remdups_adj_cong_Cons [OF lg(2), of current] by simp
    then have logs: "\<exists>calls'. log m' = log m @ calls'
        \<and> remdups_adj (map fst calls') = remdups_adj (current # ?V)"
      using lg(1) blk(1) by (intro exI [of _ "blk @ calls"]) simp
    show ?thesis
      unfolding vis using h st fl gen v Inr logs
      by (simp add: visit_set_history)
  qed
qed

lemma flow_update_swap:
  "fl\<lparr>history := h, shared_data := s\<rparr> = fl\<lparr>shared_data := s, history := h\<rparr>"
  by (cases fl) simp

text \<open>
  C6, as it holds: \<^verbatim>\<open>run\<close> starts at the start step and does not clear the history. A
  run that ends leaves the history it found, followed by exactly the steps it visited,
  the start step first. Those are the steps on which the run made its calls, in that
  order, and they are the whole history when the run starts on an empty one,
  everything else being equal. The fields \<^verbatim>\<open>start\<close> and \<^verbatim>\<open>current_node\<close> are not written.
\<close>

theorem Flow_run_appends_history:
  assumes "Flow_run fuel ps m = Some (out, m')"
  shows "history (flow m') = history (flow m) @ run_visits fuel ps m
         \<and> run_visits fuel ps m \<noteq> []
         \<and> hd (run_visits fuel ps m) = start (flow m)
         \<and> (\<exists>calls. log m' = log m @ calls
                \<and> remdups_adj (map fst calls) = remdups_adj (run_visits fuel ps m))
         \<and> Flow_run fuel ps (m\<lparr>flow := (flow m)\<lparr>history := []\<rparr>\<rparr>)
             = Some (out, m'\<lparr>flow := (flow m')\<lparr>history := run_visits fuel ps m\<rparr>\<rparr>)
         \<and> start (flow m') = start (flow m)
         \<and> current_node (flow m') = current_node (flow m)"
proof -
  let ?m = "m\<lparr>flow := (flow m)\<lparr>shared_data := merge_params ps (shared_data (flow m))\<rparr>\<rparr>"
  let ?vis = "run_visits fuel ps m"
  from assms have run: "run_loop fuel ?m (Some (start (flow m))) PyNone = Some (out, m')"
    by (simp add: Flow_run_def)
  then obtain k where k: "fuel = Suc k" by (cases fuel) simp_all
  have first: "hd ?vis = start (flow m)" "?vis \<noteq> []"
    unfolding run_visits_def k by simp_all
  from run_loop_visited [OF run] have
    "history (flow m') = history (flow ?m) @ ?vis"
    "start (flow m') = start (flow ?m)" "current_node (flow m') = current_node (flow ?m)"
    "\<exists>calls. log m' = log ?m @ calls \<and> remdups_adj (map fst calls) = remdups_adj ?vis"
    "run_loop fuel (?m\<lparr>flow := (flow ?m)\<lparr>history := []\<rparr>\<rparr>) (Some (start (flow m))) PyNone
              = Some (out, m'\<lparr>flow := (flow m')\<lparr>history := [] @ ?vis\<rparr>\<rparr>)"
    unfolding run_visits_def by blast+
  with first show ?thesis
    by (simp add: Flow_run_def flow_update_swap)
qed

theorem Flow_run_appends_history_witness:
  "history (flow used_chain) = [0, 1, 2]
   \<and> run_visits 3 None used_chain = [0, 1, 2]
   \<and> final_history (Flow_run 3 None used_chain) = Some [0, 1, 2, 0, 1, 2]"
proof -
  have three: "(3::nat) = Suc (Suc (Suc 0))" by simp
  have h0: "history (flow used_chain) = [0, 1, 2]"
    by (simp add: used_chain_def)
  have vis: "run_visits 3 None used_chain = [0, 1, 2]"
    unfolding three
    by (simp add: run_visits_def used_chain_def chain_flow_def numbered_step_def rshift_at_def
        BaseNode_rshift_def BaseNode_next_def run_defs)
  have "\<exists>out m'. Flow_run 3 None used_chain = Some (out, m')"
    unfolding three
    by (simp add: used_chain_def chain_flow_def numbered_step_def rshift_at_def
        BaseNode_rshift_def BaseNode_next_def run_defs)
  then obtain out m' where h: "Flow_run 3 None used_chain = Some (out, m')" by blast
  from Flow_run_appends_history [OF h] h h0 vis show ?thesis
    by (simp add: final_history_def)
qed

text \<open>
  C6, as stated, fails: a second run on the driver of one step, without a reset,
  leaves the history \<open>[0, 0]\<close>, though the run visited the step once, as the first did.
\<close>

theorem Flow_run_history_counterexample:
  "final_history (Flow_run (Suc 0) None single_flow) = Some [0]
   \<and> final_history (run_twice (Suc 0) None single_flow) = Some [0, 0]"
  by (simp add: final_history_def run_twice_def single_flow_def counting_step_def run_defs)

lemma successors_rshift_at:
  "successors (rshift_at a b st c)
     = (if c = a then dict_set (Label ''default'') b (successors (st a)) else successors (st c))"
  by (simp add: rshift_at_def BaseNode_rshift_def BaseNode_next_def)

lemma visit_post_last:
  "visit m c = (Inr r, m') \<Longrightarrow> \<exists>p e. last (log m') = (c, Post p e (Inr r))"
  by (auto simp: visit_def BaseNode__run_def Let_def split: prod.splits sum.splits)

lemma run_loop_chain:
  assumes sA: "successors (nodes m0 A) = [(Label la, B)]"
      and sB: "successors (nodes m0 B) = [(Label lb, C)]"
      and sC: "successors (nodes m0 C) = []"
  shows "run_loop (Suc (Suc (Suc k))) m0 (Some A) r0 = Some (visit_all m0 [A, B, C] r0)"
proof (cases "visit m0 A")
  case (Pair oa ma)
  note va = this
  have succ_a: "\<And>n. successors (nodes ma n) = successors (nodes m0 n)"
    using visit_successors [of m0 A] va by simp
  show ?thesis
  proof (cases oa)
    case (Inl x)
    then show ?thesis using va by simp
  next
    case (Inr ra)
    note ra = this
    obtain ob mb where vb: "visit ma B = (ob, mb)" by (cases "visit ma B")
    have succ_b: "\<And>n. successors (nodes mb n) = successors (nodes m0 n)"
      using visit_successors [of ma B] vb succ_a by simp
    show ?thesis
    proof (cases ob)
      case (Inl x)
      then show ?thesis using va ra vb succ_a sA by simp
    next
      case (Inr rb)
      note rb = this
      obtain oc mc where vc: "visit mb C = (oc, mc)" by (cases "visit mb C")
      have succ_c: "\<And>n. successors (nodes mc n) = successors (nodes m0 n)"
        using visit_successors [of mb C] vc succ_b by simp
      show ?thesis
        using va ra vb rb vc succ_a succ_b succ_c sA sB sC
        by (cases oc) simp_all
    qed
  qed
qed

text \<open>
  C5: three distinct steps \<open>A\<close>, \<open>B\<close>, \<open>C\<close> without transitions, chained by \<^verbatim>\<open>A >> B\<close> and
  \<^verbatim>\<open>B >> C\<close>, and a driver freshly built on \<open>A\<close>. With fuel for three iterations the
  run ends, and it is the visit of \<open>A\<close>, then \<open>B\<close>, then \<open>C\<close>, in that order. When it
  returns, it returns the result \<open>r\<close> that the \<^verbatim>\<open>post\<close> of \<open>C\<close> returned, the last call made,
  and the history is \<open>[A, B, C]\<close>. When a phase of a step raises, the exception leaves
  the run and the history holds the steps up to that one.
\<close>

theorem Flow_run_linear_pipeline:
  assumes fresh: "successors (st A) = []" "successors (st B) = []" "successors (st C) = []"
      and dist: "distinct [A, B, C]"
      and fuel: "3 \<le> fuel"
      and pipeline: "m0 = new_flow A (rshift_at B C (rshift_at A B st)) w"
  shows "\<exists>out m'.
           Flow_run fuel ps m0 = Some (out, m')
           \<and> (out, m')
               = visit_all (m0\<lparr>flow := (flow m0)\<lparr>shared_data := merge_params ps []\<rparr>\<rparr>)
                   [A, B, C] PyNone
           \<and> (case out of
                 Inr r \<Rightarrow> history (flow m') = [A, B, C]
                           \<and> (\<exists>p e. last (log m') = (C, Post p e (Inr r)))
               | Inl x \<Rightarrow> history (flow m') = [A] \<or> history (flow m') = [A, B]
                           \<or> history (flow m') = [A, B, C])"
proof -
  let ?m = "m0\<lparr>flow := (flow m0)\<lparr>shared_data := merge_params ps (shared_data (flow m0))\<rparr>\<rparr>"
  obtain k where k: "fuel = Suc (Suc (Suc k))"
    using fuel by (metis Suc_le_D numeral_3_eq_3 Suc_le_mono)
  have sA: "successors (nodes ?m A) = [(Label ''default'', B)]"
    and sB: "successors (nodes ?m B) = [(Label ''default'', C)]"
    and sC: "successors (nodes ?m C) = []"
    using fresh dist by (simp_all add: pipeline new_flow_def successors_rshift_at)
  have h0: "history (flow ?m) = []" and st: "start (flow m0) = A"
    and sd: "shared_data (flow m0) = []"
    by (simp_all add: pipeline new_flow_def Flow_init_def)
  have run: "Flow_run fuel ps m0 = Some (visit_all ?m [A, B, C] PyNone)"
    unfolding Flow_run_def k st by (rule run_loop_chain [OF sA sB sC])
  obtain oa ma where va: "visit ?m A = (oa, ma)" by (cases "visit ?m A")
  obtain ob mb where vb: "visit ma B = (ob, mb)" by (cases "visit ma B")
  obtain oc mc where vc: "visit mb C = (oc, mc)" by (cases "visit mb C")
  have ha: "history (flow ma) = [A]"
    using visit_flow_fields(3) [of ?m A] va h0 by simp
  have hb: "history (flow mb) = [A, B]"
    using visit_flow_fields(3) [of ma B] vb ha by simp
  have hc: "history (flow mc) = [A, B, C]"
    using visit_flow_fields(3) [of mb C] vc hb by simp
  have post: "\<exists>p e. last (log mc) = (C, Post p e (Inr r))" if "oc = Inr r" for r
    using visit_post_last [of mb C r mc] vc that by simp
  have "case visit_all ?m [A, B, C] PyNone of
          (Inr r, m') \<Rightarrow> history (flow m') = [A, B, C]
                            \<and> (\<exists>p e. last (log m') = (C, Post p e (Inr r)))
        | (Inl x, m') \<Rightarrow> history (flow m') = [A] \<or> history (flow m') = [A, B]
                            \<or> history (flow m') = [A, B, C]"
    using va vb vc ha hb hc post
    by (cases oa; cases ob; cases oc) simp_all
  with run sd show ?thesis
    by (cases "visit_all ?m [A, B, C] PyNone") auto
qed

theorem Flow_run_linear_pipeline_witness:
  "map_option fst (Flow_run 3 None chain_flow) = Some (Inr (Val 2))
   \<and> final_history (Flow_run 3 None chain_flow) = Some [0, 1, 2]"
proof -
  have three: "(3::nat) = Suc (Suc (Suc 0))" by simp
  have f: "successors (numbered_step 0 :: (nat, nat, nat) node) = []"
    "successors (numbered_step 1 :: (nat, nat, nat) node) = []"
    "successors (numbered_step 2 :: (nat, nat, nat) node) = []"
    by (simp_all add: numbered_step_def Node_init_def BaseNode_init_def)
  have d: "distinct [0, 1, 2 :: nat]" by simp
  have ev: "map_option fst (Flow_run 3 None chain_flow) = Some (Inr (Val 2))"
    unfolding three
    by (simp add: chain_flow_def numbered_step_def rshift_at_def BaseNode_rshift_def
        BaseNode_next_def run_defs)
  from Flow_run_linear_pipeline [OF f d order_refl chain_flow_def, of None] show ?thesis
    using ev by (auto simp: final_history_def)
qed

end
